theory Spec2Isabelle
  imports Main
begin

section \<open>Data model\<close>

text \<open>
  The repository holds two programs with the same handlers: the in-memory server
  (variant A, \<^verbatim>\<open>main.go\<close> lines 1--173) and the server mirrored to a document
  store (variant B, lines 174--431). \<^verbatim>\<open>getUsers\<close>, \<^verbatim>\<open>getUser\<close> and
  \<^verbatim>\<open>updateUser\<close> are the same text in both and are embedded once;
  \<^verbatim>\<open>createUser\<close> and \<^verbatim>\<open>deleteUser\<close> differ and carry the suffix \<open>A\<close> or \<open>B\<close>.

  Go's \<^verbatim>\<open>int\<close> is taken at 64 bits. Values are held as \<open>int\<close> and the one
  arithmetic operation of the code, \<^verbatim>\<open>nextID++\<close>, wraps around through \<open>wrap64\<close>.
\<close>

record User =
  ID :: int
  Name :: string
  Age :: int

record store =
  users :: "User list"
  nextID :: int

definition MaxInt :: int where
  "MaxInt = 9223372036854775807"

definition MinInt :: int where
  "MinInt = - 9223372036854775808"

definition wrap64 :: "int \<Rightarrow> int" where
  "wrap64 x = (x + 9223372036854775808) mod 18446744073709551616 - 9223372036854775808"

definition init_store :: store where
  "init_store = \<lparr>users = [], nextID = 1\<rparr>"

subsection \<open>Responses\<close>

datatype body = JsonUsers "User list" | JsonUser User | PlainText string | NoBody

text \<open>
  A handler ends with a response, or the process ends (\<^verbatim>\<open>log.Fatal\<close>), or the handler
  panics (the HTTP server recovers the panic, runs the deferred unlock and goes on).
\<close>

datatype outcome = Response nat body | Fatal string | Panic

text \<open>\<^verbatim>\<open>http.Error(w, msg, code)\<close> writes the message and a newline as plain text.\<close>

definition http_Error :: "string \<Rightarrow> nat \<Rightarrow> outcome" where
  "http_Error msg code = Response code (PlainText (msg @ [CHR 0x0A]))"

subsection \<open>The standard library's \<^verbatim>\<open>strconv.Atoi\<close>\<close>

text \<open>
  An optional sign, then one or more decimal digits and nothing else; a value outside the
  range of \<^verbatim>\<open>int\<close> is an error as well. \<open>None\<close> stands for the error.
\<close>

definition is_digit :: "char \<Rightarrow> bool" where
  "is_digit c = (48 \<le> (of_char c :: nat) \<and> (of_char c :: nat) \<le> 57)"

fun digits_val :: "int \<Rightarrow> string \<Rightarrow> int" where
  "digits_val n [] = n"
| "digits_val n (c # cs) = digits_val (n * 10 + (int (of_char c) - 48)) cs"

definition Atoi :: "string \<Rightarrow> int option" where
  "Atoi s =
     (case s of
        [] \<Rightarrow> None
      | c # cs \<Rightarrow>
          (let ds = (if c = CHR ''-'' \<or> c = CHR ''+'' then cs else s) in
           if ds = [] \<or> \<not> list_all is_digit ds then None
           else
             (let n = digits_val 0 ds; v = (if c = CHR ''-'' then - n else n) in
              if v < MinInt \<or> MaxInt < v then None else Some v)))"

section \<open>Handlers shared by both variants\<close>

text \<open>\<^verbatim>\<open>getUsers\<close>: encodes the whole collection.\<close>

definition getUsers :: "store \<Rightarrow> outcome \<times> store" where
  "getUsers s = (Response 200 (JsonUsers (users s)), s)"

text \<open>The scan \<^verbatim>\<open>for _, user := range users { if user.ID == id { ... return } }\<close>.\<close>

fun find_user :: "int \<Rightarrow> User list \<Rightarrow> User option" where
  "find_user i [] = None"
| "find_user i (u # us) = (if ID u = i then Some u else find_user i us)"

definition getUser :: "string \<Rightarrow> store \<Rightarrow> outcome \<times> store" where
  "getUser idStr s =
     (case Atoi idStr of
        None \<Rightarrow> (http_Error ''Invalid ID'' 400, s)
      | Some i \<Rightarrow>
          (case find_user i (users s) of
             Some u \<Rightarrow> (Response 200 (JsonUser u), s)
           | None \<Rightarrow> (http_Error ''User not found'' 404, s)))"

text \<open>
  The scan \<^verbatim>\<open>for i, user := range users { if user.ID == id { ... } }\<close> as the index
  of the first record with the id.
\<close>

fun find_index :: "int \<Rightarrow> User list \<Rightarrow> nat option" where
  "find_index i [] = None"
| "find_index i (u # us) =
     (if ID u = i then Some 0 else map_option Suc (find_index i us))"

text \<open>
  \<^verbatim>\<open>updateUser\<close>: the payload is decoded first (\<open>None\<close> is a decoding error), then the
  id is parsed; the first record with the id gets the payload's name and age.
\<close>

definition updateUser :: "User option \<Rightarrow> string \<Rightarrow> store \<Rightarrow> outcome \<times> store" where
  "updateUser payload idStr s =
     (case payload of
        None \<Rightarrow> (http_Error ''Invalid request payload'' 400, s)
      | Some updatedUser \<Rightarrow>
          (case Atoi idStr of
             None \<Rightarrow> (http_Error ''Invalid ID'' 400, s)
           | Some i \<Rightarrow>
               (case find_index i (users s) of
                  Some k \<Rightarrow>
                    (let us = (users s)[k := (users s ! k)\<lparr>Name := Name updatedUser,
                                                          Age := Age updatedUser\<rparr>]
                     in (Response 200 (JsonUser (us ! k)), s\<lparr>users := us\<rparr>))
                | None \<Rightarrow> (http_Error ''User not found'' 404, s))))"

section \<open>Variant A: the in-memory server\<close>

definition createUserA :: "User option \<Rightarrow> store \<Rightarrow> outcome \<times> store" where
  "createUserA payload s =
     (case payload of
        None \<Rightarrow> (http_Error ''Invalid request payload'' 400, s)
      | Some user \<Rightarrow>
          (let user' = user\<lparr>ID := nextID s\<rparr>;
               s' = s\<lparr>nextID := wrap64 (nextID s + 1)\<rparr>;
               s'' = s'\<lparr>users := users s' @ [user']\<rparr>
           in (Response 201 (JsonUser user'), s'')))"

text \<open>
  \<^verbatim>\<open>deleteUser\<close> of variant A returns right after
  \<^verbatim>\<open>users = append(users[:i], users[i+1:]...)\<close> at the first match.
\<close>

definition deleteUserA :: "string \<Rightarrow> store \<Rightarrow> outcome \<times> store" where
  "deleteUserA idStr s =
     (case Atoi idStr of
        None \<Rightarrow> (http_Error ''Invalid ID'' 400, s)
      | Some i \<Rightarrow>
          (case find_index i (users s) of
             Some k \<Rightarrow>
               (Response 204 NoBody, s\<lparr>users := take k (users s) @ drop (k + 1) (users s)\<rparr>)
           | None \<Rightarrow> (http_Error ''User not found'' 404, s)))"

section \<open>Variant B: the server mirrored to a document store\<close>

text \<open>
  The document store is outside the program. What it answers to a call is an input of
  the handler, and the calls a handler makes are part of its result.
\<close>

datatype mirror_call = InsertOne User | DeleteOne int

datatype insert_reply = InsertFailed string | Inserted

text \<open>\<open>Deleted n\<close>: the call returned no error and \<^verbatim>\<open>DeletedCount\<close> is \<open>n\<close>.\<close>

datatype delete_reply = DeleteFailed string | Deleted int

text \<open>
  \<^verbatim>\<open>createUser\<close> of variant B: the id is taken and the counter incremented, then the
  record is inserted into the mirror; only when that succeeds is it appended in memory.
\<close>

definition createUserB ::
  "User option \<Rightarrow> insert_reply \<Rightarrow> store \<Rightarrow> outcome \<times> store \<times> mirror_call list" where
  "createUserB payload reply s =
     (case payload of
        None \<Rightarrow> (http_Error ''Invalid request payload'' 400, s, [])
      | Some user \<Rightarrow>
          (let user' = user\<lparr>ID := nextID s\<rparr>;
               s' = s\<lparr>nextID := wrap64 (nextID s + 1)\<rparr>
           in case reply of
                InsertFailed err \<Rightarrow> (http_Error err 500, s', [InsertOne user'])
              | Inserted \<Rightarrow>
                  (Response 201 (JsonUser user'), s'\<lparr>users := users s' @ [user']\<rparr>,
                   [InsertOne user'])))"

text \<open>
  The loop of \<^verbatim>\<open>deleteUser\<close> in variant B has no \<^verbatim>\<open>return\<close> or \<^verbatim>\<open>break\<close>:
  \<^verbatim>\<open>
  for i, user := range users {
      if user.ID == id {
          users = append(users[:i], users[i+1:]...)
      }
  }
  \<close>
  \<^verbatim>\<open>range\<close> evaluates the slice once, so the loop runs over the \<open>n\<close> cells the slice
  had at the start, while the assignment shortens the global slice and shifts the cells
  of the same backing array. The state of the loop is the array \<open>arr\<close> of these \<open>n\<close>
  cells and the current length \<open>l\<close> of the global slice. At a match, \<^verbatim>\<open>users[i+1:]\<close>
  panics when \<open>i + 1\<close> is beyond \<open>l\<close>; otherwise the cells \<open>i + 1 ..< l\<close> move one to the
  left and the cells from \<open>l - 1\<close> on keep their content. The result says whether the
  loop panicked, and gives the array and the length of the global slice at that point.
\<close>

function delete_scan :: "int \<Rightarrow> nat \<Rightarrow> nat \<Rightarrow> User list \<Rightarrow> nat \<Rightarrow> bool \<times> User list \<times> nat" where
  "delete_scan i k n arr l =
     (if k < n then
        (if ID (arr ! k) = i then
           (if k + 1 \<le> l then
              delete_scan i (k + 1) n
                (take k arr @ take (l - (k + 1)) (drop (k + 1) arr) @ drop (l - 1) arr) (l - 1)
            else (True, arr, l))
         else delete_scan i (k + 1) n arr l)
      else (False, arr, l))"
  by pat_completeness auto
termination
  by (relation "measure (\<lambda>(i, k, n, arr, l). n - k)") auto

declare delete_scan.simps [simp del]

text \<open>
  \<^verbatim>\<open>deleteUser\<close> of variant B: the id comes from the decoded body; the mirror is asked
  first, an error there ends the process (\<^verbatim>\<open>log.Fatal\<close>), and memory is scanned only
  when the mirror deleted a document.
\<close>

definition deleteUserB ::
  "User option \<Rightarrow> delete_reply \<Rightarrow> store \<Rightarrow> outcome \<times> store \<times> mirror_call list" where
  "deleteUserB payload reply s =
     (case payload of
        None \<Rightarrow> (http_Error ''Invalid request payload'' 400, s, [])
      | Some user \<Rightarrow>
          (let i = ID user in
           case reply of
             DeleteFailed err \<Rightarrow> (Fatal err, s, [DeleteOne i])
           | Deleted cnt \<Rightarrow>
               if 0 < cnt then
                 (case delete_scan i 0 (length (users s)) (users s) (length (users s)) of
                    (panicked, arr, l) \<Rightarrow>
                      (if panicked then Panic else Response 204 NoBody,
                       s\<lparr>users := take l arr\<rparr>, [DeleteOne i]))
               else (http_Error ''User not found'' 404, s, [DeleteOne i])))"

text \<open>
  Startup of variant B: every document of the mirror is appended as it is; the counter
  keeps its initial value.
\<close>

fun bulkLoad :: "User list \<Rightarrow> store \<Rightarrow> store" where
  "bulkLoad [] s = s"
| "bulkLoad (u # us) s = bulkLoad us (s\<lparr>users := users s @ [u]\<rparr>)"

definition startupB :: "User list \<Rightarrow> store" where
  "startupB docs = bulkLoad docs init_store"

section \<open>Requests and runs\<close>

text \<open>
  A request is the route taken in \<^verbatim>\<open>main\<close> with what the handler reads: the \<^verbatim>\<open>id\<close>
  query parameter as a string and the result of decoding the body into a \<^verbatim>\<open>User\<close>
  (\<open>None\<close> when decoding fails). A delete request has both: variant A reads the query,
  variant B the body.
\<close>

datatype request =
    GetUsers
  | CreateUser "User option"
  | GetUser string
  | UpdateUser "User option" string
  | DeleteUser string "User option"
  | Options
  | Other

fun handleA :: "request \<Rightarrow> store \<Rightarrow> outcome \<times> store" where
  "handleA GetUsers s = getUsers s"
| "handleA (CreateUser payload) s = createUserA payload s"
| "handleA (GetUser idStr) s = getUser idStr s"
| "handleA (UpdateUser payload idStr) s = updateUser payload idStr s"
| "handleA (DeleteUser idStr payload) s = deleteUserA idStr s"
| "handleA Options s = (Response 200 NoBody, s)"
| "handleA Other s = (http_Error ''Method not allowed'' 405, s)"

text \<open>In variant B a request comes with the answers the mirror gives while it is served.\<close>

record mirror =
  on_insert :: insert_reply
  on_delete :: delete_reply

fun handleB :: "request \<Rightarrow> mirror \<Rightarrow> store \<Rightarrow> outcome \<times> store \<times> mirror_call list" where
  "handleB GetUsers m s = (fst (getUsers s), snd (getUsers s), [])"
| "handleB (CreateUser payload) m s = createUserB payload (on_insert m) s"
| "handleB (GetUser idStr) m s = (fst (getUser idStr s), snd (getUser idStr s), [])"
| "handleB (UpdateUser payload idStr) m s =
     (fst (updateUser payload idStr s), snd (updateUser payload idStr s), [])"
| "handleB (DeleteUser idStr payload) m s = deleteUserB payload (on_delete m) s"
| "handleB Options m s = (Response 200 NoBody, s, [])"
| "handleB Other m s = (http_Error ''Method not allowed'' 405, s, [])"

fun runA :: "request list \<Rightarrow> store \<Rightarrow> outcome list \<times> store" where
  "runA [] s = ([], s)"
| "runA (r # rs) s =
     (case handleA r s of (out, s') \<Rightarrow>
        (case runA rs s' of (outs, s'') \<Rightarrow> (out # outs, s'')))"

fun is_Fatal :: "outcome \<Rightarrow> bool" where
  "is_Fatal (Fatal e) = True"
| "is_Fatal out = False"

text \<open>A run of variant B ends at a fatal error: the process is gone.\<close>

fun runB :: "(request \<times> mirror) list \<Rightarrow> store \<Rightarrow> outcome list \<times> store \<times> mirror_call list" where
  "runB [] s = ([], s, [])"
| "runB ((r, m) # es) s =
     (case handleB r m s of (out, s', cs) \<Rightarrow>
        if is_Fatal out then ([out], s', cs)
        else (case runB es s' of (outs, s'', cs') \<Rightarrow> (out # outs, s'', cs @ cs')))"

text \<open>The ids that create returned: those of the 201 responses, in order.\<close>

fun created_ids :: "outcome list \<Rightarrow> int list" where
  "created_ids [] = []"
| "created_ids (Response code (JsonUser u) # outs) =
     (if code = 201 then ID u # created_ids outs else created_ids outs)"
| "created_ids (out # outs) = created_ids outs"

fun is_create :: "request \<Rightarrow> bool" where
  "is_create (CreateUser payload) = True"
| "is_create r = False"

fun is_update :: "request \<Rightarrow> bool" where
  "is_update (UpdateUser payload idStr) = True"
| "is_update r = False"

text \<open>
  The invariant of the data model: the ids of the live records are pairwise distinct and
  below the counter.
\<close>

fun store_ok :: "store \<Rightarrow> bool" where
  "store_ok s = (distinct (map ID (users s)) \<and> list_all (\<lambda>u. ID u < nextID s) (users s))"

section \<open>Auxiliary facts\<close>

subsection \<open>The counter and the scans\<close>

lemma wrap64_id: "MinInt \<le> x \<Longrightarrow> x \<le> MaxInt \<Longrightarrow> wrap64 x = x"
  by (simp add: wrap64_def MinInt_def MaxInt_def)

lemma find_index_SomeD:
  "find_index i us = Some k \<Longrightarrow> k < length us \<and> ID (us ! k) = i \<and> (\<forall>j<k. ID (us ! j) \<noteq> i)"
proof (induction us arbitrary: k)
  case Nil
  then show ?case by simp
next
  case (Cons u us)
  show ?case
  proof (cases "ID u = i")
    case True
    with Cons.prems show ?thesis by simp
  next
    case False
    with Cons.prems obtain k' where k': "find_index i us = Some k'" "k = Suc k'"
      by auto
    from Cons.IH [OF k'(1)] False k'(2) show ?thesis
      by (auto simp: less_Suc_eq_0_disj)
  qed
qed

lemma find_index_None_iff: "find_index i us = None \<longleftrightarrow> i \<notin> ID ` set us"
  by (induction us) auto

lemma find_user_find_index: "find_user i us = map_option (\<lambda>k. us ! k) (find_index i us)"
  by (induction us) (auto simp: option.map_comp comp_def)



lemma find_index_list_update:
  "ID v = ID (us ! k) \<Longrightarrow> find_index i (us[k := v]) = find_index i us"
proof (induction us arbitrary: k)
  case Nil
  then show ?case by simp
next
  case (Cons u us)
  then show ?case by (cases k) auto
qed

lemma distinct_remove_nth:
  "distinct (map ID us) \<Longrightarrow> k < length us \<Longrightarrow>
   take k us @ drop (Suc k) us = filter (\<lambda>v. ID v \<noteq> ID (us ! k)) us"
proof (induction us arbitrary: k)
  case Nil
  then show ?case by simp
next
  case (Cons u us)
  show ?case
  proof (cases k)
    case 0
    from Cons.prems have "ID u \<notin> ID ` set us" by simp
    then have "\<forall>v\<in>set us. ID v \<noteq> ID u" by (metis imageI)
    then have "filter (\<lambda>v. ID v \<noteq> ID u) us = us" by (simp add: filter_id_conv)
    with 0 show ?thesis by simp
  next
    case (Suc k')
    with Cons.prems have "us ! k' \<in> set us" "ID u \<notin> ID ` set us" by simp_all
    then have "ID (us ! k') \<noteq> ID u" by (metis imageI)
    with Cons.IH [of k'] Cons.prems Suc show ?thesis by auto
  qed
qed

lemma distinct_ID_nth:
  "distinct (map ID us) \<Longrightarrow> p < length us \<Longrightarrow> q < length us \<Longrightarrow> ID (us ! p) = ID (us ! q) \<Longrightarrow> p = q"
  using nth_eq_iff_index_eq [of "map ID us" p q] by simp

subsection \<open>The loop of delete in variant B\<close>

lemma delete_scan_no_match:
  "\<forall>j. k \<le> j \<and> j < n \<longrightarrow> ID (arr ! j) \<noteq> i \<Longrightarrow> delete_scan i k n arr l = (False, arr, l)"
proof (induction "n - k" arbitrary: k)
  case 0
  then show ?case by (simp add: delete_scan.simps [of i k])
next
  case (Suc d)
  then have "k < n" "ID (arr ! k) \<noteq> i" "d = n - (k + 1)" by auto
  moreover have "\<forall>j. k + 1 \<le> j \<and> j < n \<longrightarrow> ID (arr ! j) \<noteq> i" using Suc.prems by auto
  ultimately show ?case using Suc.hyps(1) [of "k + 1"]
    by (simp add: delete_scan.simps [of i k])
qed

lemma delete_scan_skip:
  "k \<le> p \<Longrightarrow> p \<le> n \<Longrightarrow> \<forall>j. k \<le> j \<and> j < p \<longrightarrow> ID (arr ! j) \<noteq> i \<Longrightarrow>
   delete_scan i k n arr l = delete_scan i p n arr l"
proof (induction "p - k" arbitrary: k)
  case 0
  then show ?case by simp
next
  case (Suc d)
  then have "k < n" "ID (arr ! k) \<noteq> i" "d = p - (k + 1)" "k + 1 \<le> p" by auto
  moreover have "\<forall>j. k + 1 \<le> j \<and> j < p \<longrightarrow> ID (arr ! j) \<noteq> i" using Suc.prems by auto
  ultimately show ?case using Suc.hyps(1) [of "k + 1"] Suc.prems(2)
    by (simp add: delete_scan.simps [of i k])
qed

lemma shifted_nth:
  assumes "p < length us" "p < j" "j < length us"
  shows "\<exists>q. q < length us \<and> q \<noteq> p \<and>
     (take p us @ take (length us - (p + 1)) (drop (p + 1) us) @ drop (length us - 1) us) ! j = us ! q"
proof (cases "j < length us - 1")
  case True
  with assms have "j - p < length us - Suc p" by arith
  with True assms have "(take p us @ take (length us - (p + 1)) (drop (p + 1) us) @ drop (length us - 1) us) ! j
      = us ! (j + 1)"
    by (simp add: nth_append)
  with True assms show ?thesis by (intro exI [of _ "j + 1"]) auto
next
  case False
  with assms have j: "j = length us - 1" by simp
  with assms have "(take p us @ take (length us - (p + 1)) (drop (p + 1) us) @ drop (length us - 1) us) ! j
      = us ! (length us - 1)"
    by (simp add: nth_append)
  with j assms show ?thesis by (intro exI [of _ "length us - 1"]) auto
qed

lemma delete_scan_distinct:
  assumes d: "distinct (map ID us)" and f: "find_index i us = Some p"
  shows "delete_scan i 0 (length us) us (length us) =
    (False, take p us @ take (length us - (p + 1)) (drop (p + 1) us) @ drop (length us - 1) us,
     length us - 1)"
proof -
  let ?n = "length us"
  let ?arr = "take p us @ take (?n - (p + 1)) (drop (p + 1) us) @ drop (?n - 1) us"
  from find_index_SomeD [OF f]
  have p: "p < ?n" and ip: "ID (us ! p) = i" and before: "\<forall>j<p. ID (us ! j) \<noteq> i" by auto
  have "delete_scan i 0 ?n us ?n = delete_scan i p ?n us ?n"
    using p before by (intro delete_scan_skip) auto
  also have "\<dots> = delete_scan i (p + 1) ?n ?arr (?n - 1)"
    using p ip by (simp add: delete_scan.simps [of i p])
  also have "\<dots> = (False, ?arr, ?n - 1)"
  proof (rule delete_scan_no_match, intro allI impI)
    fix j assume j: "p + 1 \<le> j \<and> j < ?n"
    with shifted_nth [of p us j] p obtain q where q: "q < ?n" "q \<noteq> p" "?arr ! j = us ! q"
      by auto
    from distinct_ID_nth [OF d p q(1)] q(2) ip have "ID (us ! q) \<noteq> i" by auto
    with q(3) show "ID (?arr ! j) \<noteq> i" by simp
  qed
  finally show ?thesis .
qed

lemma delete_scan_distinct_users:
  assumes d: "distinct (map ID us)" and f: "find_index i us = Some p"
  shows "delete_scan i 0 (length us) us (length us) = (b, arr, l) \<Longrightarrow>
    \<not> b \<and> take l arr = take p us @ drop (p + 1) us"
proof -
  assume "delete_scan i 0 (length us) us (length us) = (b, arr, l)"
  with delete_scan_distinct [OF d f]
  have b: "\<not> b" and l: "l = length us - 1"
    and arr: "arr = (take p us @ drop (p + 1) us) @ drop (length us - 1) us"
    using find_index_SomeD [OF f] by auto
  define xs where "xs = take p us @ drop (p + 1) us"
  from find_index_SomeD [OF f] l have "length xs = l" by (auto simp: xs_def)
  moreover from arr have "arr = xs @ drop (length us - 1) us" by (simp add: xs_def)
  ultimately have "take l arr = xs" by simp
  then have "take l arr = take p us @ drop (p + 1) us" by (simp add: xs_def)
  with b show ?thesis by simp
qed

subsection \<open>What a handler does to the counter, the outcome and the mirror\<close>

lemma shared_not_Fatal:
  "\<not> is_Fatal (fst (getUsers s))" "\<not> is_Fatal (fst (getUser q s))"
  "\<not> is_Fatal (fst (updateUser p q s))"
  by (auto simp: getUsers_def getUser_def updateUser_def http_Error_def Let_def
           split: option.splits)

lemma shared_nextID:
  "nextID (snd (getUsers s)) = nextID s" "nextID (snd (getUser q s)) = nextID s"
  "nextID (snd (updateUser p q s)) = nextID s"
  by (auto simp: getUsers_def getUser_def updateUser_def http_Error_def Let_def
           split: option.splits)

lemma createUserB_nextID:
  "nextID s = nextID t \<Longrightarrow>
   snd (snd (createUserB p rep s)) = snd (snd (createUserB p rep t)) \<and>
   nextID (fst (snd (createUserB p rep s))) = nextID (fst (snd (createUserB p rep t))) \<and>
   \<not> is_Fatal (fst (createUserB p rep s))"
  by (auto simp: createUserB_def http_Error_def Let_def split: option.splits insert_reply.splits)

lemma deleteUserB_nextID:
  "snd (snd (deleteUserB p rep s)) = snd (snd (deleteUserB p rep t)) \<and>
   nextID (fst (snd (deleteUserB p rep s))) = nextID s \<and>
   is_Fatal (fst (deleteUserB p rep s)) = is_Fatal (fst (deleteUserB p rep t))"
  by (auto simp: deleteUserB_def http_Error_def Let_def
           split: option.splits delete_reply.splits prod.splits)

lemma handleB_nextID:
  assumes "nextID s = nextID t"
  shows "snd (snd (handleB r m s)) = snd (snd (handleB r m t))"
    and "nextID (fst (snd (handleB r m s))) = nextID (fst (snd (handleB r m t)))"
    and "is_Fatal (fst (handleB r m s)) = is_Fatal (fst (handleB r m t))"
proof -
  have "snd (snd (handleB r m s)) = snd (snd (handleB r m t)) \<and>
    nextID (fst (snd (handleB r m s))) = nextID (fst (snd (handleB r m t))) \<and>
    is_Fatal (fst (handleB r m s)) = is_Fatal (fst (handleB r m t))"
  proof (cases r)
    case (CreateUser p)
    with createUserB_nextID [OF assms, of p "on_insert m"]
      createUserB_nextID [of t t p "on_insert m"] show ?thesis by simp
  next
    case (DeleteUser q p)
    with deleteUserB_nextID [of p "on_delete m" s t] deleteUserB_nextID [of p "on_delete m" t t]
      assms show ?thesis by simp
  qed (simp_all add: shared_not_Fatal shared_nextID assms http_Error_def)
  then show "snd (snd (handleB r m s)) = snd (snd (handleB r m t))"
    and "nextID (fst (snd (handleB r m s))) = nextID (fst (snd (handleB r m t)))"
    and "is_Fatal (fst (handleB r m s)) = is_Fatal (fst (handleB r m t))" by simp_all
qed

lemma runB_calls_nextID:
  "nextID s = nextID t \<Longrightarrow> snd (snd (runB es s)) = snd (snd (runB es t))"
proof (induction es arbitrary: s t)
  case Nil
  then show ?case by simp
next
  case (Cons e es)
  obtain r m where e: "e = (r, m)" by (cases e)
  from handleB_nextID [OF Cons.prems, of r m]
  have c: "snd (snd (handleB r m s)) = snd (snd (handleB r m t))"
    and n: "nextID (fst (snd (handleB r m s))) = nextID (fst (snd (handleB r m t)))"
    and f: "is_Fatal (fst (handleB r m s)) = is_Fatal (fst (handleB r m t))" by simp_all
  from Cons.IH [OF n] c f e show ?case
    by (simp add: split_beta)
qed

lemma runB_calls_without_updates:
  "snd (snd (runB es s)) = snd (snd (runB (filter (\<lambda>e. \<not> is_update (fst e)) es) s))"
proof (induction es arbitrary: s)
  case Nil
  then show ?case by simp
next
  case (Cons e es)
  obtain r m where e: "e = (r, m)" by (cases e)
  show ?case
  proof (cases "is_update r")
    case True
    then obtain p q where r: "r = UpdateUser p q" by (cases r) auto
    have "snd (snd (runB (e # es) s)) = snd (snd (runB es (snd (updateUser p q s))))"
      using e r by (simp add: split_beta shared_not_Fatal)
    also have "\<dots> = snd (snd (runB es s))"
      by (rule runB_calls_nextID) (simp add: shared_nextID)
    also have "\<dots> = snd (snd (runB (filter (\<lambda>e. \<not> is_update (fst e)) es) s))"
      by (rule Cons.IH)
    finally show ?thesis using e True by simp
  next
    case False
    with e Cons.IH show ?thesis by (simp add: split_beta)
  qed
qed

lemma handleA_nextID:
  "nextID (snd (handleA r s)) = (if is_create r \<and> fst (handleA r s) \<noteq> http_Error ''Invalid request payload'' 400 then wrap64 (nextID s + 1) else nextID s)"
  by (cases r)
     (auto simp: getUsers_def getUser_def updateUser_def deleteUserA_def createUserA_def
        http_Error_def Let_def split: option.splits)

lemma handleB_nextID_step:
  "nextID (fst (snd (handleB r m s))) = nextID s \<or>
   (is_create r \<and> nextID (fst (snd (handleB r m s))) = wrap64 (nextID s + 1))"
  by (cases r)
     (auto simp: shared_nextID deleteUserB_nextID createUserB_def Let_def
           split: option.splits insert_reply.splits)

subsection \<open>The ids returned by create in a run\<close>

lemma not_create_outcome:
  "\<not> is_create r \<Longrightarrow> handleA r s = (out, s') \<Longrightarrow>
   nextID s' = nextID s \<and> created_ids (out # outs) = created_ids outs"
  by (cases r)
     (auto simp: getUsers_def getUser_def updateUser_def deleteUserA_def http_Error_def Let_def
           split: option.splits)

lemma createA_outcome:
  "handleA (CreateUser p) s = (out, s') \<Longrightarrow>
   (p = None \<and> s' = s \<and> created_ids (out # outs) = created_ids outs) \<or>
   (nextID s' = wrap64 (nextID s + 1) \<and> created_ids (out # outs) = nextID s # created_ids outs)"
  by (auto simp: createUserA_def http_Error_def Let_def split: option.splits)

lemma runA_created_ids:
  "MinInt \<le> nextID s \<Longrightarrow> nextID s + int (length (filter is_create rs)) \<le> MaxInt \<Longrightarrow>
   sorted_wrt (<) (created_ids (fst (runA rs s))) \<and>
   (\<forall>i\<in>set (created_ids (fst (runA rs s))). nextID s \<le> i)"
proof (induction rs arbitrary: s)
  case Nil
  then show ?case by simp
next
  case (Cons r rs)
  obtain out s' where h: "handleA r s = (out, s')" by (cases "handleA r s")
  obtain outs s'' where t: "runA rs s' = (outs, s'')" by (cases "runA rs s'")
  have run: "fst (runA (r # rs) s) = out # outs" using h t by simp
  show ?case
  proof (cases "is_create r")
    case False
    from not_create_outcome [OF False h, of outs]
    have n: "nextID s' = nextID s" and c: "created_ids (out # outs) = created_ids outs" by auto
    from Cons.prems False n have "MinInt \<le> nextID s'"
      "nextID s' + int (length (filter is_create rs)) \<le> MaxInt" by auto
    from Cons.IH [OF this] t n c run show ?thesis by simp
  next
    case True
    then obtain p where r: "r = CreateUser p" by (cases r) auto
    from createA_outcome [of p s out s' outs] h r
    consider (bad) "s' = s" "created_ids (out # outs) = created_ids outs"
      | (good) "nextID s' = wrap64 (nextID s + 1)"
          "created_ids (out # outs) = nextID s # created_ids outs"
      by auto
    then show ?thesis
    proof cases
      case bad
      from Cons.prems bad(1) True have "MinInt \<le> nextID s'"
        "nextID s' + int (length (filter is_create rs)) \<le> MaxInt" by auto
      from Cons.IH [OF this] t bad run show ?thesis by simp
    next
      case good
      from Cons.prems True have b: "nextID s + 1 + int (length (filter is_create rs)) \<le> MaxInt"
        by simp
      with Cons.prems(1) have "wrap64 (nextID s + 1) = nextID s + 1"
        by (intro wrap64_id) auto
      with good have n: "nextID s' = nextID s + 1" by simp
      with Cons.prems(1) b have "MinInt \<le> nextID s'"
        "nextID s' + int (length (filter is_create rs)) \<le> MaxInt" by auto
      from Cons.IH [OF this] t n good(2) run show ?thesis by auto
    qed
  qed
qed

lemma not_create_outcomeB:
  "\<not> is_create r \<Longrightarrow> handleB r m s = (out, s', cs) \<Longrightarrow>
   nextID s' = nextID s \<and> created_ids (out # outs) = created_ids outs"
  by (cases r)
     (auto simp: getUsers_def getUser_def updateUser_def deleteUserB_def http_Error_def Let_def
           split: option.splits delete_reply.splits prod.splits if_splits)

lemma createB_outcome:
  "handleB (CreateUser p) m s = (out, s', cs) \<Longrightarrow>
   (p = None \<and> s' = s \<and> created_ids (out # outs) = created_ids outs) \<or>
   (nextID s' = wrap64 (nextID s + 1) \<and>
    (created_ids (out # outs) = nextID s # created_ids outs \<or>
     created_ids (out # outs) = created_ids outs))"
  by (auto simp: createUserB_def http_Error_def Let_def split: option.splits insert_reply.splits)

lemma created_ids_Fatal: "is_Fatal out \<Longrightarrow> created_ids [out] = []"
  by (cases out) simp_all

lemma runB_created_ids:
  "MinInt \<le> nextID s \<Longrightarrow>
   nextID s + int (length (filter (\<lambda>e. is_create (fst e)) es)) \<le> MaxInt \<Longrightarrow>
   sorted_wrt (<) (created_ids (fst (runB es s))) \<and>
   (\<forall>i\<in>set (created_ids (fst (runB es s))). nextID s \<le> i)"
proof (induction es arbitrary: s)
  case Nil
  then show ?case by simp
next
  case (Cons e es)
  obtain r m where e: "e = (r, m)" by (cases e)
  obtain out s' cs where h: "handleB r m s = (out, s', cs)" by (cases "handleB r m s")
  obtain outs s'' cs' where t: "runB es s' = (outs, s'', cs')" by (cases "runB es s'")
  show ?case
  proof (cases "is_Fatal out")
    case True
    with e h have "fst (runB (e # es) s) = [out]" by simp
    with created_ids_Fatal [OF True] show ?thesis by simp
  next
    case nf: False
    with e h t have run: "fst (runB (e # es) s) = out # outs" by simp
    show ?thesis
    proof (cases "is_create r")
      case False
      from not_create_outcomeB [OF False h, of outs]
      have n: "nextID s' = nextID s" and c: "created_ids (out # outs) = created_ids outs" by auto
      from Cons.prems False n e have "MinInt \<le> nextID s'"
        "nextID s' + int (length (filter (\<lambda>e. is_create (fst e)) es)) \<le> MaxInt" by auto
      from Cons.IH [OF this] t n c run show ?thesis by simp
    next
      case True
      then obtain p where r: "r = CreateUser p" by (cases r) auto
      from createB_outcome [of p m s out s' cs outs] h r
      consider (bad) "s' = s" "created_ids (out # outs) = created_ids outs"
        | (good) "nextID s' = wrap64 (nextID s + 1)"
            "created_ids (out # outs) = nextID s # created_ids outs \<or>
             created_ids (out # outs) = created_ids outs"
        by auto
      then show ?thesis
      proof cases
        case bad
        from Cons.prems bad(1) True e have "MinInt \<le> nextID s'"
          "nextID s' + int (length (filter (\<lambda>e. is_create (fst e)) es)) \<le> MaxInt" by auto
        from Cons.IH [OF this] t bad run show ?thesis by simp
      next
        case good
        from Cons.prems True e
        have b: "nextID s + 1 + int (length (filter (\<lambda>e. is_create (fst e)) es)) \<le> MaxInt"
          by simp
        with Cons.prems(1) have "wrap64 (nextID s + 1) = nextID s + 1"
          by (intro wrap64_id) auto
        with good have n: "nextID s' = nextID s + 1" by simp
        with Cons.prems(1) b have "MinInt \<le> nextID s'"
          "nextID s' + int (length (filter (\<lambda>e. is_create (fst e)) es)) \<le> MaxInt" by auto
        from Cons.IH [OF this] t n
        have srt: "sorted_wrt (<) (created_ids outs)"
          and low: "\<forall>i\<in>set (created_ids outs). nextID s + 1 \<le> i" by simp_all
        from low have "\<forall>i\<in>set (created_ids outs). nextID s < i \<and> nextID s \<le> i" by force
        with srt good(2) run show ?thesis by auto
      qed
    qed
  qed
qed

subsection \<open>The invariant holds in every run from the empty store\<close>

lemma store_ok_filter:
  "store_ok s \<Longrightarrow> store_ok (s\<lparr>users := filter P (users s)\<rparr>)"
  by (simp add: distinct_map_filter list_all_iff)

lemma store_ok_update:
  assumes "store_ok s" and "find_index i (users s) = Some k"
  shows "store_ok (s\<lparr>users := (users s)[k := (users s ! k)\<lparr>Name := a, Age := b\<rparr>]\<rparr>)"
proof -
  let ?us = "users s"
  let ?r = "(?us ! k)\<lparr>Name := a, Age := b\<rparr>"
  from find_index_SomeD [OF assms(2)] have kl: "k < length ?us" by simp
  have "map ID (?us[k := ?r]) = (map ID ?us)[k := ID (?us ! k)]"
    by (simp add: map_update)
  also have "\<dots> = map ID ?us" using kl by (simp add: list_update_same_conv)
  finally have m: "map ID (?us[k := ?r]) = map ID ?us" .
  from assms(1) have "list_all (\<lambda>x. x < nextID s) (map ID ?us)"
    by (simp add: list_all_iff)
  with m have "list_all (\<lambda>x. x < nextID s) (map ID (?us[k := ?r]))" by simp
  then have "list_all (\<lambda>u. ID u < nextID s) (?us[k := ?r])"
    by (simp add: list_all_iff)
  with assms(1) m show ?thesis by simp
qed

lemma store_ok_append:
  assumes "store_ok s" and "MinInt \<le> nextID s" and "nextID s < MaxInt"
  shows "store_ok (s\<lparr>nextID := wrap64 (nextID s + 1), users := users s @ [u\<lparr>ID := nextID s\<rparr>]\<rparr>)"
    and "store_ok (s\<lparr>nextID := wrap64 (nextID s + 1)\<rparr>)"
proof -
  from assms(2,3) have w: "wrap64 (nextID s + 1) = nextID s + 1"
    by (intro wrap64_id) auto
  from assms(1) have lt: "\<forall>v\<in>set (users s). ID v < nextID s" by (simp add: list_all_iff)
  then have "nextID s \<notin> ID ` set (users s)" by auto
  with assms(1) lt w
  show "store_ok (s\<lparr>nextID := wrap64 (nextID s + 1), users := users s @ [u\<lparr>ID := nextID s\<rparr>]\<rparr>)"
    by (auto simp: list_all_iff)
  from assms(1) lt w show "store_ok (s\<lparr>nextID := wrap64 (nextID s + 1)\<rparr>)"
    by (auto simp: list_all_iff)
qed

lemma take_drop_filter:
  assumes "store_ok s" and "find_index i (users s) = Some k"
  shows "take k (users s) @ drop (k + 1) (users s) = filter (\<lambda>v. ID v \<noteq> i) (users s)"
  using distinct_remove_nth [of "users s" k] find_index_SomeD [OF assms(2)] assms(1) by simp

lemma handleA_store_ok:
  assumes "store_ok s" and "MinInt \<le> nextID s" and "is_create r \<longrightarrow> nextID s < MaxInt"
  shows "store_ok (snd (handleA r s))"
proof (cases r)
  case (CreateUser p)
  with assms store_ok_append(1) [of s] show ?thesis
    by (cases p) (simp_all add: createUserA_def Let_def del: store_ok.simps)
next
  case (UpdateUser p q)
  with assms(1) store_ok_update [of s] show ?thesis
    by (auto simp: updateUser_def Let_def simp del: store_ok.simps split: option.splits)
next
  case (DeleteUser q p)
  with assms(1) take_drop_filter [of s] store_ok_filter [of s] show ?thesis
    by (auto simp: deleteUserA_def simp del: store_ok.simps split: option.splits)
next
  case (GetUser q)
  with assms(1) show ?thesis
    by (auto simp: getUser_def simp del: store_ok.simps split: option.splits)
qed (use assms(1) in \<open>simp_all add: getUsers_def del: store_ok.simps\<close>)

lemma deleteUserB_store_ok:
  assumes "store_ok s"
  shows "store_ok (fst (snd (deleteUserB p rep s)))"
proof (cases "\<exists>u cnt. p = Some u \<and> rep = Deleted cnt \<and> 0 < cnt")
  case False
  with assms show ?thesis
    by (cases p; cases rep) (auto simp: deleteUserB_def Let_def simp del: store_ok.simps)
next
  case True
  then obtain u cnt where p: "p = Some u" "rep = Deleted cnt" "0 < cnt" by auto
  let ?us = "users s"
  obtain b arr l where sc: "delete_scan (ID u) 0 (length ?us) ?us (length ?us) = (b, arr, l)"
    by (cases "delete_scan (ID u) 0 (length ?us) ?us (length ?us)")
  have "take l arr = filter (\<lambda>v. ID v \<noteq> ID u) ?us"
  proof (cases "find_index (ID u) ?us")
    case None
    then have "ID u \<notin> ID ` set ?us" by (simp add: find_index_None_iff)
    then have "\<forall>j. 0 \<le> j \<and> j < length ?us \<longrightarrow> ID (?us ! j) \<noteq> ID u"
      by (metis imageI nth_mem)
    from delete_scan_no_match [OF this, of "length ?us"] sc
    have "arr = ?us" "l = length ?us" by simp_all
    moreover from \<open>ID u \<notin> ID ` set ?us\<close> have "\<forall>v\<in>set ?us. ID v \<noteq> ID u"
      by (metis imageI)
    then have "filter (\<lambda>v. ID v \<noteq> ID u) ?us = ?us"
      by (simp add: filter_id_conv)
    ultimately show ?thesis by simp
  next
    case (Some k)
    from assms have d: "distinct (map ID ?us)" by simp
    from delete_scan_distinct_users [OF d Some sc] take_drop_filter [OF assms Some]
    show ?thesis by simp
  qed
  with p sc have "fst (snd (deleteUserB p rep s)) = s\<lparr>users := filter (\<lambda>v. ID v \<noteq> ID u) ?us\<rparr>"
    by (simp add: deleteUserB_def Let_def)
  with store_ok_filter [OF assms] show ?thesis by simp
qed

lemma handleB_store_ok:
  assumes "store_ok s" and "MinInt \<le> nextID s" and "is_create r \<longrightarrow> nextID s < MaxInt"
  shows "store_ok (fst (snd (handleB r m s)))"
proof (cases r)
  case (CreateUser p)
  with assms store_ok_append [of s] show ?thesis
    by (cases p; cases "on_insert m") (simp_all add: createUserB_def Let_def del: store_ok.simps)
next
  case (UpdateUser p q)
  with assms(1) store_ok_update [of s] show ?thesis
    by (auto simp: updateUser_def Let_def simp del: store_ok.simps split: option.splits)
next
  case (DeleteUser q p)
  with deleteUserB_store_ok [OF assms(1)] show ?thesis by simp
next
  case (GetUser q)
  with assms(1) show ?thesis
    by (auto simp: getUser_def simp del: store_ok.simps split: option.splits)
qed (use assms(1) in \<open>simp_all add: getUsers_def del: store_ok.simps\<close>)

lemma runA_store_ok:
  "store_ok s \<Longrightarrow> MinInt \<le> nextID s \<Longrightarrow>
   nextID s + int (length (filter is_create rs)) \<le> MaxInt \<Longrightarrow>
   store_ok (snd (runA rs s))"
proof (induction rs arbitrary: s)
  case Nil
  then show ?case by simp
next
  case (Cons r rs)
  obtain out s' where h: "handleA r s = (out, s')" by (cases "handleA r s")
  from Cons.prems have c: "is_create r \<longrightarrow> nextID s < MaxInt" by auto
  from handleA_store_ok [OF Cons.prems(1,2) c] h have ok: "store_ok s'" by simp
  from Cons.prems(2,3) have w: "is_create r \<Longrightarrow> wrap64 (nextID s + 1) = nextID s + 1"
    by (intro wrap64_id) auto
  from handleA_nextID [of r s] h w
  have n: "nextID s' = nextID s \<or> (is_create r \<and> nextID s' = nextID s + 1)"
    by (auto split: if_splits)
  with Cons.prems(2,3) have "MinInt \<le> nextID s'"
    "nextID s' + int (length (filter is_create rs)) \<le> MaxInt"
    by (auto split: if_splits)
  from Cons.IH [OF ok this] h show ?case by (simp add: split_beta)
qed

lemma runB_store_ok:
  "store_ok s \<Longrightarrow> MinInt \<le> nextID s \<Longrightarrow>
   nextID s + int (length (filter (\<lambda>e. is_create (fst e)) es)) \<le> MaxInt \<Longrightarrow>
   store_ok (fst (snd (runB es s)))"
proof (induction es arbitrary: s)
  case Nil
  then show ?case by simp
next
  case (Cons e es)
  obtain r m where e: "e = (r, m)" by (cases e)
  obtain out s' cs where h: "handleB r m s = (out, s', cs)" by (cases "handleB r m s")
  from Cons.prems e have c: "is_create r \<longrightarrow> nextID s < MaxInt" by auto
  from handleB_store_ok [OF Cons.prems(1,2) c, of m] h have ok: "store_ok s'" by simp
  from Cons.prems(2,3) e have w: "is_create r \<Longrightarrow> wrap64 (nextID s + 1) = nextID s + 1"
    by (intro wrap64_id) auto
  from handleB_nextID_step [of r m s] h w
  have n: "nextID s' = nextID s \<or> (is_create r \<and> nextID s' = nextID s + 1)"
    by auto
  with Cons.prems(2,3) e have "MinInt \<le> nextID s'"
    "nextID s' + int (length (filter (\<lambda>e. is_create (fst e)) es)) \<le> MaxInt"
    by (auto split: if_splits)
  from Cons.IH [OF ok this] h e ok show ?case by (simp add: split_beta)
qed

lemma reachable_ids_unique:
  "int (length (filter is_create rs)) < MaxInt \<Longrightarrow>
     distinct (map ID (users (snd (runA rs init_store))))"
  "int (length (filter (\<lambda>e. is_create (fst e)) es)) < MaxInt \<Longrightarrow>
     distinct (map ID (users (fst (snd (runB es init_store)))))"
proof -
  have i: "store_ok init_store" "MinInt \<le> nextID init_store"
    by (simp_all add: init_store_def MinInt_def)
  show "distinct (map ID (users (snd (runA rs init_store))))"
    if "int (length (filter is_create rs)) < MaxInt"
    using runA_store_ok [OF i, of rs] that by (simp add: init_store_def)
  show "distinct (map ID (users (fst (snd (runB es init_store)))))"
    if "int (length (filter (\<lambda>e. is_create (fst e)) es)) < MaxInt"
    using runB_store_ok [OF i, of es] that by (simp add: init_store_def)
qed

subsection \<open>Parsing concrete ids\<close>

lemma Atoi_abc: "Atoi ''abc'' = None"
  by (simp add: Atoi_def is_digit_def)

lemma Atoi_1: "Atoi ''1'' = Some 1"
  by (simp add: Atoi_def is_digit_def MinInt_def MaxInt_def)

lemma Atoi_2: "Atoi ''2'' = Some 2"
  by (simp add: Atoi_def is_digit_def MinInt_def MaxInt_def)

section \<open>Monotonic ids\<close>

text \<open>
  C1. In every run from the empty store, in variant A and in variant B (whatever the
  mirror answers), the ids that create returns, taken in the order of the requests, are
  strictly increasing: each is greater than all ids returned before it, so no id comes
  back a second time, whatever deletes, updates and reads lie in between. The counter is
  a 64-bit integer that wraps around, so the run is taken to hold fewer than
  \<open>MaxInt\<close> (that is \<open>2\<^sup>6\<^sup>3 - 1\<close>) create requests.
\<close>

theorem created_ids_strictly_increasing:
  assumes "int (length (filter is_create rs)) < MaxInt"
    and "int (length (filter (\<lambda>e. is_create (fst e)) es)) < MaxInt"
  shows "sorted_wrt (<) (created_ids (fst (runA rs init_store))) \<and>
         distinct (created_ids (fst (runA rs init_store))) \<and>
         sorted_wrt (<) (created_ids (fst (runB es init_store))) \<and>
         distinct (created_ids (fst (runB es init_store)))"
proof -
  have "MinInt \<le> nextID init_store" by (simp add: init_store_def MinInt_def)
  moreover have "nextID init_store + int (length (filter is_create rs)) \<le> MaxInt"
    "nextID init_store + int (length (filter (\<lambda>e. is_create (fst e)) es)) \<le> MaxInt"
    using assms by (simp_all add: init_store_def)
  ultimately have "sorted_wrt (<) (created_ids (fst (runA rs init_store)))"
    and "sorted_wrt (<) (created_ids (fst (runB es init_store)))"
    using runA_created_ids [of init_store rs] runB_created_ids [of init_store es] by simp_all
  then show ?thesis by (simp add: strict_sorted_iff)
qed

theorem created_ids_strictly_increasing_witness:
  "created_ids (fst (runA [CreateUser (Some \<lparr>ID = 7, Name = ''Ann'', Age = 30\<rparr>),
                           DeleteUser ''1'' None,
                           CreateUser (Some \<lparr>ID = 7, Name = ''Bob'', Age = 25\<rparr>)] init_store)) = [1, 2] \<and>
   sorted_wrt (<) (created_ids (fst (runA [CreateUser (Some \<lparr>ID = 7, Name = ''Ann'', Age = 30\<rparr>),
                           DeleteUser ''1'' None,
                           CreateUser (Some \<lparr>ID = 7, Name = ''Bob'', Age = 25\<rparr>)] init_store))) \<and>
   created_ids (fst (runB
      [(CreateUser (Some \<lparr>ID = 7, Name = ''Ann'', Age = 30\<rparr>), \<lparr>on_insert = Inserted, on_delete = Deleted 1\<rparr>),
       (CreateUser (Some \<lparr>ID = 7, Name = ''Cy'', Age = 41\<rparr>), \<lparr>on_insert = InsertFailed ''down'', on_delete = Deleted 1\<rparr>),
       (DeleteUser [] (Some \<lparr>ID = 1, Name = [], Age = 0\<rparr>), \<lparr>on_insert = Inserted, on_delete = Deleted 1\<rparr>),
       (CreateUser (Some \<lparr>ID = 7, Name = ''Bob'', Age = 25\<rparr>), \<lparr>on_insert = Inserted, on_delete = Deleted 1\<rparr>)]
      init_store)) = [1, 3] \<and>
   sorted_wrt (<) (created_ids (fst (runB
      [(CreateUser (Some \<lparr>ID = 7, Name = ''Ann'', Age = 30\<rparr>), \<lparr>on_insert = Inserted, on_delete = Deleted 1\<rparr>),
       (CreateUser (Some \<lparr>ID = 7, Name = ''Cy'', Age = 41\<rparr>), \<lparr>on_insert = InsertFailed ''down'', on_delete = Deleted 1\<rparr>),
       (DeleteUser [] (Some \<lparr>ID = 1, Name = [], Age = 0\<rparr>), \<lparr>on_insert = Inserted, on_delete = Deleted 1\<rparr>),
       (CreateUser (Some \<lparr>ID = 7, Name = ''Bob'', Age = 25\<rparr>), \<lparr>on_insert = Inserted, on_delete = Deleted 1\<rparr>)]
      init_store)))"
  using created_ids_strictly_increasing
    [of "[CreateUser (Some \<lparr>ID = 7, Name = ''Ann'', Age = 30\<rparr>),
          DeleteUser ''1'' None,
          CreateUser (Some \<lparr>ID = 7, Name = ''Bob'', Age = 25\<rparr>)]"
        "[(CreateUser (Some \<lparr>ID = 7, Name = ''Ann'', Age = 30\<rparr>), \<lparr>on_insert = Inserted, on_delete = Deleted 1\<rparr>),
       (CreateUser (Some \<lparr>ID = 7, Name = ''Cy'', Age = 41\<rparr>), \<lparr>on_insert = InsertFailed ''down'', on_delete = Deleted 1\<rparr>),
       (DeleteUser [] (Some \<lparr>ID = 1, Name = [], Age = 0\<rparr>), \<lparr>on_insert = Inserted, on_delete = Deleted 1\<rparr>),
       (CreateUser (Some \<lparr>ID = 7, Name = ''Bob'', Age = 25\<rparr>), \<lparr>on_insert = Inserted, on_delete = Deleted 1\<rparr>)]"]
  by (simp add: MaxInt_def init_store_def createUserA_def createUserB_def deleteUserA_def
        deleteUserB_def Atoi_1 wrap64_def http_Error_def delete_scan.simps Let_def)

section \<open>Input validation\<close>

text \<open>
  C8. A \<^verbatim>\<open>GET /user\<close> whose \<^verbatim>\<open>id\<close> parameter \<^verbatim>\<open>strconv.Atoi\<close> rejects is answered with
  status 400 and the text \<^verbatim>\<open>Invalid ID\<close>. The answer is the same for every store, so the
  store is not consulted, and the store is returned as it was; the handler ends with a
  response, neither a panic nor the end of the process.
\<close>

theorem getUser_invalid_id:
  "Atoi idStr = None \<Longrightarrow>
   getUser idStr s = (Response 400 (PlainText (''Invalid ID'' @ [CHR 0x0A])), s)"
  by (simp add: getUser_def http_Error_def)

theorem getUser_invalid_id_witness:
  "Atoi ''abc'' = None \<and>
   getUser ''abc'' \<lparr>users = [\<lparr>ID = 1, Name = ''Ann'', Age = 30\<rparr>], nextID = 2\<rparr> =
     (Response 400 (PlainText (''Invalid ID'' @ [CHR 0x0A])),
      \<lparr>users = [\<lparr>ID = 1, Name = ''Ann'', Age = 30\<rparr>], nextID = 2\<rparr>)"
  using getUser_invalid_id
    [of "''abc''" "\<lparr>users = [\<lparr>ID = 1, Name = ''Ann'', Age = 30\<rparr>], nextID = 2\<rparr>"]
  by (simp add: Atoi_abc)

section \<open>Create\<close>

text \<open>
  C9. Create ignores the id of the payload. For every decoded payload \<open>u\<close>, in variant A
  and, when the mirror accepts the insert, in variant B, the record returned with status
  201 and appended to the collection is \<open>u\<close> with its id replaced by the current value
  of the counter; in variant B this is also the record sent to the mirror.
\<close>

theorem create_ignores_client_id:
  "createUserA (Some u) s =
     (Response 201 (JsonUser (u\<lparr>ID := nextID s\<rparr>)),
      \<lparr>users = users s @ [u\<lparr>ID := nextID s\<rparr>], nextID = wrap64 (nextID s + 1)\<rparr>) \<and>
   createUserB (Some u) Inserted s =
     (Response 201 (JsonUser (u\<lparr>ID := nextID s\<rparr>)),
      \<lparr>users = users s @ [u\<lparr>ID := nextID s\<rparr>], nextID = wrap64 (nextID s + 1)\<rparr>,
      [InsertOne (u\<lparr>ID := nextID s\<rparr>)]) \<and>
   ID (u\<lparr>ID := nextID s\<rparr>) = nextID s"
  by (simp add: createUserA_def createUserB_def Let_def)

text \<open>
  C2, as the code has it. When the mirror rejects the insert, create answers with status
  500 and the mirror's error text, and the record collection is the one before the
  request. The counter is not restored: it is one step further, so the id taken for the
  failed create is not given out again.
\<close>

theorem createUserB_insert_failed:
  "createUserB (Some u) (InsertFailed err) s =
     (Response 500 (PlainText (err @ [CHR 0x0A])),
      \<lparr>users = users s, nextID = wrap64 (nextID s + 1)\<rparr>,
      [InsertOne (u\<lparr>ID := nextID s\<rparr>)])"
  by (simp add: createUserB_def Let_def http_Error_def)

text \<open>
  C2 as stated fails: after a failed create on the initial store, the store is not the
  initial store (the counter is 2, not 1).
\<close>

theorem createUserB_insert_failed_counterexample:
  "fst (snd (createUserB (Some \<lparr>ID = 0, Name = ''Ann'', Age = 30\<rparr>)
               (InsertFailed ''server selection timeout'') init_store))
     \<noteq> init_store"
  by (simp add: createUserB_def Let_def init_store_def wrap64_def)

section \<open>Startup from the mirror\<close>

lemma bulkLoad_append: "bulkLoad docs s = s\<lparr>users := users s @ docs\<rparr>"
  by (induction docs arbitrary: s) simp_all

lemma startupB_eq: "startupB docs = \<lparr>users = docs, nextID = 1\<rparr>"
  by (simp add: startupB_def bulkLoad_append init_store_def)

text \<open>
  C3 does not hold of the code. The mirror holds one record with id 1 (what a run that
  created one user leaves behind). After startup the counter is 1 again, so the next
  create returns id 1 and the collection holds two records with id 1.
\<close>

theorem bulk_load_id_collision:
  "createUserB (Some \<lparr>ID = 0, Name = ''Bob'', Age = 25\<rparr>) Inserted
     (startupB [\<lparr>ID = 1, Name = ''Ann'', Age = 30\<rparr>]) =
   (Response 201 (JsonUser \<lparr>ID = 1, Name = ''Bob'', Age = 25\<rparr>),
    \<lparr>users = [\<lparr>ID = 1, Name = ''Ann'', Age = 30\<rparr>, \<lparr>ID = 1, Name = ''Bob'', Age = 25\<rparr>],
     nextID = 2\<rparr>,
    [InsertOne \<lparr>ID = 1, Name = ''Bob'', Age = 25\<rparr>]) \<and>
   \<not> distinct (map ID (users (fst (snd
      (createUserB (Some \<lparr>ID = 0, Name = ''Bob'', Age = 25\<rparr>) Inserted
         (startupB [\<lparr>ID = 1, Name = ''Ann'', Age = 30\<rparr>]))))))"
  by (simp add: createUserB_def Let_def startupB_eq wrap64_def)

section \<open>Update\<close>

text \<open>
  C5. When the store holds a record with the id of the request, update answers with
  status 200 and changes one cell of the collection, the first one with that id: the
  record there keeps its id and takes the name and age of the payload (the payload's
  own id is ignored). The collection keeps its length, every other cell and the counter
  are as before, and a get of the same id on the new store returns the updated record.
\<close>

theorem updateUser_frame:
  assumes "Atoi idStr = Some i" and "u \<in> set (users s)" and "ID u = i"
  shows "\<exists>k<length (users s). ID (users s ! k) = i \<and>
          (let r = \<lparr>ID = i, Name = Name upd, Age = Age upd\<rparr>;
               s' = s\<lparr>users := (users s)[k := r]\<rparr>
           in updateUser (Some upd) idStr s = (Response 200 (JsonUser r), s') \<and>
              getUser idStr s' = (Response 200 (JsonUser r), s'))"
proof -
  let ?us = "users s"
  let ?r = "\<lparr>ID = i, Name = Name upd, Age = Age upd\<rparr>"
  from assms(2,3) have "find_index i ?us \<noteq> None"
    by (auto simp: find_index_None_iff)
  then obtain k where k: "find_index i ?us = Some k" by auto
  from find_index_SomeD [OF k] have kl: "k < length ?us" and ik: "ID (?us ! k) = i" by auto
  have r: "(?us ! k)\<lparr>Name := Name upd, Age := Age upd\<rparr> = ?r"
    using ik by (cases "?us ! k") simp
  have U: "updateUser (Some upd) idStr s = (Response 200 (JsonUser ?r), s\<lparr>users := ?us[k := ?r]\<rparr>)"
    using assms(1) k kl r by (simp add: updateUser_def Let_def)
  have "find_index i (?us[k := ?r]) = Some k"
    using find_index_list_update [of ?r ?us k i] ik k by simp
  then have "find_user i (?us[k := ?r]) = Some ?r"
    using kl by (simp add: find_user_find_index)
  then have G: "getUser idStr (s\<lparr>users := ?us[k := ?r]\<rparr>) =
      (Response 200 (JsonUser ?r), s\<lparr>users := ?us[k := ?r]\<rparr>)"
    using assms(1) by (simp add: getUser_def)
  from kl ik U G show ?thesis by (auto simp: Let_def)
qed

theorem updateUser_frame_witness:
  "updateUser (Some \<lparr>ID = 99, Name = ''Bobby'', Age = 26\<rparr>) ''2''
     \<lparr>users = [\<lparr>ID = 1, Name = ''Ann'', Age = 30\<rparr>, \<lparr>ID = 2, Name = ''Bob'', Age = 25\<rparr>,
                \<lparr>ID = 3, Name = ''Cy'', Age = 41\<rparr>], nextID = 4\<rparr> =
     (Response 200 (JsonUser \<lparr>ID = 2, Name = ''Bobby'', Age = 26\<rparr>),
      \<lparr>users = [\<lparr>ID = 1, Name = ''Ann'', Age = 30\<rparr>, \<lparr>ID = 2, Name = ''Bobby'', Age = 26\<rparr>,
                 \<lparr>ID = 3, Name = ''Cy'', Age = 41\<rparr>], nextID = 4\<rparr>) \<and>
   getUser ''2''
     \<lparr>users = [\<lparr>ID = 1, Name = ''Ann'', Age = 30\<rparr>, \<lparr>ID = 2, Name = ''Bobby'', Age = 26\<rparr>,
                \<lparr>ID = 3, Name = ''Cy'', Age = 41\<rparr>], nextID = 4\<rparr> =
     (Response 200 (JsonUser \<lparr>ID = 2, Name = ''Bobby'', Age = 26\<rparr>),
      \<lparr>users = [\<lparr>ID = 1, Name = ''Ann'', Age = 30\<rparr>, \<lparr>ID = 2, Name = ''Bobby'', Age = 26\<rparr>,
                 \<lparr>ID = 3, Name = ''Cy'', Age = 41\<rparr>], nextID = 4\<rparr>)"
proof -
  let ?s = "\<lparr>users = [\<lparr>ID = 1, Name = ''Ann'', Age = 30\<rparr>, \<lparr>ID = 2, Name = ''Bob'', Age = 25\<rparr>,
                      \<lparr>ID = 3, Name = ''Cy'', Age = 41\<rparr>], nextID = 4\<rparr>"
  let ?u = "\<lparr>ID = 2, Name = ''Bob'', Age = 25\<rparr>"
  have h1: "Atoi ''2'' = Some 2" by (rule Atoi_2)
  have h2: "?u \<in> set (users ?s)" by simp
  have h3: "ID ?u = 2" by simp
  let ?r = "\<lparr>ID = 2, Name = ''Bobby'', Age = 26\<rparr>"
  from updateUser_frame [OF h1 h2 h3, of "\<lparr>ID = 99, Name = ''Bobby'', Age = 26\<rparr>"]
  obtain k where kl: "k < length (users ?s)" and ik: "ID (users ?s ! k) = 2"
    and U: "updateUser (Some \<lparr>ID = 99, Name = ''Bobby'', Age = 26\<rparr>) ''2'' ?s =
       (Response 200 (JsonUser ?r), ?s\<lparr>users := (users ?s)[k := ?r]\<rparr>)"
    and G: "getUser ''2'' (?s\<lparr>users := (users ?s)[k := ?r]\<rparr>) =
       (Response 200 (JsonUser ?r), ?s\<lparr>users := (users ?s)[k := ?r]\<rparr>)"
    unfolding Let_def User.simps by blast
  from kl have "k = 0 \<or> k = 1 \<or> k = 2" by auto
  with ik have "k = 1" by auto
  with U G show ?thesis by simp
qed

text \<open>
  C7. Update makes no call to the mirror: the handler of \<^verbatim>\<open>PUT /user\<close> in variant B is
  \<^verbatim>\<open>updateUser\<close> on the store alone, with no mirror call, whether it succeeds or not and
  whatever the mirror would answer. Over a whole run, the sequence of calls made to the
  mirror is that of the run without its update requests.
\<close>

theorem update_never_calls_mirror:
  "handleB (UpdateUser payload idStr) m s =
     (fst (updateUser payload idStr s), snd (updateUser payload idStr s), []) \<and>
   snd (snd (runB es s)) = snd (snd (runB (filter (\<lambda>e. \<not> is_update (fst e)) es) s))"
  using runB_calls_without_updates [of es s] by simp

theorem update_never_calls_mirror_witness:
  "snd (snd (runB
      [(CreateUser (Some \<lparr>ID = 0, Name = ''Ann'', Age = 30\<rparr>), \<lparr>on_insert = Inserted, on_delete = Deleted 1\<rparr>),
       (UpdateUser (Some \<lparr>ID = 0, Name = ''Ann'', Age = 31\<rparr>) ''1'', \<lparr>on_insert = Inserted, on_delete = Deleted 1\<rparr>),
       (DeleteUser [] (Some \<lparr>ID = 1, Name = [], Age = 0\<rparr>), \<lparr>on_insert = Inserted, on_delete = Deleted 1\<rparr>)]
      init_store)) =
   [InsertOne \<lparr>ID = 1, Name = ''Ann'', Age = 30\<rparr>, DeleteOne 1]"
  using update_never_calls_mirror [of None "[]" "\<lparr>on_insert = Inserted, on_delete = Deleted 1\<rparr>" init_store
     "[(CreateUser (Some \<lparr>ID = 0, Name = ''Ann'', Age = 30\<rparr>), \<lparr>on_insert = Inserted, on_delete = Deleted 1\<rparr>),
       (UpdateUser (Some \<lparr>ID = 0, Name = ''Ann'', Age = 31\<rparr>) ''1'', \<lparr>on_insert = Inserted, on_delete = Deleted 1\<rparr>),
       (DeleteUser [] (Some \<lparr>ID = 1, Name = [], Age = 0\<rparr>), \<lparr>on_insert = Inserted, on_delete = Deleted 1\<rparr>)]"]
  by (simp add: init_store_def createUserB_def deleteUserB_def wrap64_def Let_def
        delete_scan.simps)

section \<open>Delete\<close>




text \<open>
  C6. When the mirror's delete call fails, \<^verbatim>\<open>deleteUser\<close> of variant B ends the process
  (\<^verbatim>\<open>log.Fatal\<close>) after that one call to the mirror, and the store is the one before the
  request: nothing was removed from memory. A run ends there.
\<close>

theorem deleteUserB_mirror_failure:
  "deleteUserB (Some u) (DeleteFailed err) s = (Fatal err, s, [DeleteOne (ID u)]) \<and>
   runB ((DeleteUser idStr (Some u), \<lparr>on_insert = rep, on_delete = DeleteFailed err\<rparr>) # es) s =
     ([Fatal err], s, [DeleteOne (ID u)])"
  by (simp add: deleteUserB_def Let_def)

text \<open>
  C10. In variant B the mirror's count decides the outcome of delete. When the mirror
  deleted no document, the answer is 404 and the store is the one before the request, so
  a record with that id stays in memory as it was. When the mirror deleted a document
  and memory holds no record with the id, the answer is 204 all the same.
\<close>

theorem deleteUserB_decided_by_mirror:
  "deleteUserB (Some u) (Deleted 0) s =
     (Response 404 (PlainText (''User not found'' @ [CHR 0x0A])), s, [DeleteOne (ID u)]) \<and>
   (0 < cnt \<and> ID u \<notin> ID ` set (users s) \<longrightarrow>
      deleteUserB (Some u) (Deleted cnt) s = (Response 204 NoBody, s, [DeleteOne (ID u)]))"
proof -
  have "delete_scan (ID u) 0 (length (users s)) (users s) (length (users s)) =
      (False, users s, length (users s))" if "ID u \<notin> ID ` set (users s)"
  proof (rule delete_scan_no_match, intro allI impI)
    fix j assume "0 \<le> j \<and> j < length (users s)"
    then have "users s ! j \<in> set (users s)" by simp
    with that show "ID (users s ! j) \<noteq> ID u" by (metis imageI)
  qed
  then show ?thesis
    by (simp add: deleteUserB_def Let_def http_Error_def)
qed

theorem deleteUserB_decided_by_mirror_witness:
  "deleteUserB (Some \<lparr>ID = 1, Name = [], Age = 0\<rparr>) (Deleted 0)
     \<lparr>users = [\<lparr>ID = 1, Name = ''Ann'', Age = 30\<rparr>], nextID = 2\<rparr> =
     (Response 404 (PlainText (''User not found'' @ [CHR 0x0A])),
      \<lparr>users = [\<lparr>ID = 1, Name = ''Ann'', Age = 30\<rparr>], nextID = 2\<rparr>, [DeleteOne 1]) \<and>
   deleteUserB (Some \<lparr>ID = 7, Name = [], Age = 0\<rparr>) (Deleted 1)
     \<lparr>users = [\<lparr>ID = 1, Name = ''Ann'', Age = 30\<rparr>], nextID = 2\<rparr> =
     (Response 204 NoBody,
      \<lparr>users = [\<lparr>ID = 1, Name = ''Ann'', Age = 30\<rparr>], nextID = 2\<rparr>, [DeleteOne 7])"
  using deleteUserB_decided_by_mirror
      [of "\<lparr>ID = 1, Name = [], Age = 0\<rparr>" "\<lparr>users = [\<lparr>ID = 1, Name = ''Ann'', Age = 30\<rparr>], nextID = 2\<rparr>" 1]
    deleteUserB_decided_by_mirror
      [of "\<lparr>ID = 7, Name = [], Age = 0\<rparr>" "\<lparr>users = [\<lparr>ID = 1, Name = ''Ann'', Age = 30\<rparr>], nextID = 2\<rparr>" 1]
  by simp

end
